theory Spec2Isabelle
  imports Complex_Main "HOL-Library.Multiset"
begin

section \<open>Data model\<close>

text \<open>
  A task is a Python dict read through the three keys \<open>name\<close>, \<open>resources\<close> and
  \<open>profit\<close>. A key that is absent from the dict is \<open>None\<close>; looking it up raises
  KeyError in the source. Profits are Python numbers; they are taken as exact rationals
  (rounding of floats is not part of the model).
\<close>

record task =
  name :: "string option"
  resources :: "string list option"
  profit :: "rat option"

text \<open>
  The exceptions of the source. \<open>InvalidTaskFormat\<close> carries the offending task, whose
  \<open>str\<close> the source embeds in the message; \<open>KeyError\<close> carries the missing key (for
  the one that \<open>__init__\<close> raises, the node that its message names); \<open>ValueError\<close> is
  what \<open>list.remove\<close> and \<open>min\<close> raise.
\<close>

datatype error = InvalidTaskFormat task | KeyError string | ValueError

text \<open>
  Modelled from the spec: \<open>Graph\<close> is the class of the networkx library, which is not
  under src/. It is the conflict graph of the data model: an undirected graph whose nodes
  are task names, each carrying its profit, without parallel edges. The record holds what
  the program uses of it: the nodes in insertion order, each with its \<open>profit\<close>
  attribute when one has been set, and the undirected edges, an edge being stored once, in
  the orientation of the call that created it. The operations below do what the library's
  methods of the same names do on these data.
\<close>

record graph =
  nodes :: "(string \<times> rat option) list"
  edges :: "(string \<times> string) list"

definition empty_graph :: graph where
  "empty_graph = \<lparr>nodes = [], edges = []\<rparr>"

definition has_node :: "graph \<Rightarrow> string \<Rightarrow> bool" where
  "has_node g n = (n \<in> fst ` set (nodes g))"

definition has_edge :: "graph \<Rightarrow> string \<Rightarrow> string \<Rightarrow> bool" where
  "has_edge g u v = ((u, v) \<in> set (edges g) \<or> (v, u) \<in> set (edges g))"

text \<open>\<open>Graph.add_node(n, profit=p)\<close>: a new node is appended, an existing one has its
  attribute overwritten.\<close>

definition add_node :: "graph \<Rightarrow> string \<Rightarrow> rat \<Rightarrow> graph" where
  "add_node g n p =
     (if has_node g n
      then g\<lparr>nodes := map (\<lambda>(k, a). if k = n then (k, Some p) else (k, a)) (nodes g)\<rparr>
      else g\<lparr>nodes := nodes g @ [(n, Some p)]\<rparr>)"

text \<open>The node that \<open>Graph.add_edge\<close> creates for an endpoint it has not seen: no attribute.\<close>

definition touch_node :: "graph \<Rightarrow> string \<Rightarrow> graph" where
  "touch_node g n = (if has_node g n then g else g\<lparr>nodes := nodes g @ [(n, None)]\<rparr>)"

text \<open>\<open>Graph.add_edge(u, v)\<close>: both endpoints become nodes; the adjacency is a dict, so
  adding an edge that is already there changes nothing.\<close>

definition add_edge :: "graph \<Rightarrow> string \<Rightarrow> string \<Rightarrow> graph" where
  "add_edge g u v =
     (let g' = touch_node (touch_node g u) v
      in if has_edge g' u v then g' else g'\<lparr>edges := edges g' @ [(u, v)]\<rparr>)"

text \<open>\<open>Graph.degree(v)\<close>: the number of neighbours, a self-loop counting twice.\<close>

definition degree :: "graph \<Rightarrow> string \<Rightarrow> nat" where
  "degree g v = length (filter (\<lambda>e. fst e = v) (edges g)) + length (filter (\<lambda>e. snd e = v) (edges g))"

section \<open>Building the conflict graph\<close>

definition are_incompatibles :: "string list \<Rightarrow> string list \<Rightarrow> bool" where
  "are_incompatibles t1_resources t2_resources =
     ((\<exists>item \<in> set t1_resources. item \<in> set t2_resources) \<or>
      (\<exists>item \<in> set t2_resources. item \<in> set t1_resources))"

text \<open>
  The inner \<open>for t2 in tasks\<close> of \<open>from_tasks_to_graph\<close>. It runs outside the
  \<open>try\<close>, so a missing key is a bare KeyError here. The subscripts are evaluated in the
  order of the source: \<open>t1[resources]\<close>, \<open>t2[resources]\<close>, then, for an
  incompatible pair, \<open>t1[name]\<close> and \<open>t2[name]\<close>.
\<close>

fun add_conflicts :: "graph \<Rightarrow> task \<Rightarrow> task list \<Rightarrow> error + graph" where
  "add_conflicts g t1 [] = Inr g"
| "add_conflicts g t1 (t2 # ts) =
     (case resources t1 of
        None \<Rightarrow> Inl (KeyError ''resources'')
      | Some r1 \<Rightarrow>
          (case resources t2 of
             None \<Rightarrow> Inl (KeyError ''resources'')
           | Some r2 \<Rightarrow>
               if are_incompatibles r1 r2
               then (case name t1 of
                       None \<Rightarrow> Inl (KeyError ''name'')
                     | Some n1 \<Rightarrow>
                         (case name t2 of
                            None \<Rightarrow> Inl (KeyError ''name'')
                          | Some n2 \<Rightarrow> add_conflicts (add_edge g n1 n2) t1 ts))
               else add_conflicts g t1 ts))"

text \<open>
  The \<open>while tasks\<close> loop. \<open>tasks.pop()\<close> takes the last element off the caller's
  list, so the list is part of the state: the result pairs the list as the loop leaves it
  with the graph or the exception.
\<close>

function build_graph :: "graph \<Rightarrow> task list \<Rightarrow> task list \<times> (error + graph)" where
  "build_graph g tasks =
     (if tasks = [] then (tasks, Inr g)
      else
        (case (name (last tasks), profit (last tasks)) of
           (Some n, Some p) \<Rightarrow>
             (case add_conflicts (add_node g n p) (last tasks) (butlast tasks) of
                Inl e \<Rightarrow> (butlast tasks, Inl e)
              | Inr g' \<Rightarrow> build_graph g' (butlast tasks))
         | _ \<Rightarrow> (butlast tasks, Inl (InvalidTaskFormat (last tasks)))))"
  by pat_completeness auto
termination
  by (relation "measure (\<lambda>(g, tasks). length tasks)") auto

declare build_graph.simps [simp del]

definition from_tasks_to_graph :: "task list \<Rightarrow> task list \<times> (error + graph)" where
  "from_tasks_to_graph tasks = build_graph empty_graph tasks"

section \<open>The branch-and-bound search\<close>

text \<open>
  The state of a \<open>MaxWeightTasksSelector\<close>: the graph and the node weights are fixed
  by \<open>__init__\<close> and passed as arguments; the incumbent is what \<open>expand\<close> updates.
\<close>

record incumbent =
  incumbent_nodes :: "string list"
  incumbent_weight :: rat

text \<open>\<open>__init__\<close>: every node must carry the weight field, else KeyError; the weights
  are then a dict from node to profit, kept here in the order of the nodes.\<close>

fun init_weights :: "(string \<times> rat option) list \<Rightarrow> error + (string \<times> rat) list" where
  "init_weights [] = Inr []"
| "init_weights ((v, a) # ns) =
     (case a of
        None \<Rightarrow> Inl (KeyError v)
      | Some w \<Rightarrow> (case init_weights ns of Inl e \<Rightarrow> Inl e | Inr ws \<Rightarrow> Inr ((v, w) # ws)))"

text \<open>
  Modelled from the spec: \<open>update_incumbent_if_improved\<close> is a method of the
  \<open>MaxWeightClique\<close> class of the networkx library, which \<open>MaxWeightTasksSelector\<close>
  inherits and which is not under src/. It is step 1 of the algorithm: if the weight of the
  candidate is greater than the incumbent's, the candidate becomes the incumbent.
\<close>

definition update_incumbent_if_improved :: "incumbent \<Rightarrow> string list \<Rightarrow> rat \<Rightarrow> incumbent" where
  "update_incumbent_if_improved inc C C_weight =
     (if C_weight > incumbent_weight inc
      then \<lparr>incumbent_nodes = C, incumbent_weight = C_weight\<rparr>
      else inc)"

text \<open>
  Modelled from the spec: \<open>greedily_find_independent_set\<close> is inherited from
  \<open>MaxWeightClique\<close> (networkx, not under src/) and is not overridden. It forms one
  group of the greedy partition of step 2: the first node of the pool, then the first of
  those left that is neither equal nor adjacent to it, and so on, so the group is a list of
  pairwise non-adjacent nodes. The definition follows the library's loop
  \<open>v = P[0]; P = [w for w in P if v != w and not G.has_edge(v, w)]\<close>.
\<close>

function greedily_find_independent_set :: "graph \<Rightarrow> string list \<Rightarrow> string list" where
  "greedily_find_independent_set g [] = []"
| "greedily_find_independent_set g (v # ws) =
     v # greedily_find_independent_set g (filter (\<lambda>w. v \<noteq> w \<and> \<not> has_edge g v w) (v # ws))"
  by pat_completeness auto
termination
  by (relation "measure (\<lambda>(g, P). length P)") (auto simp: le_imp_less_Suc)

text \<open>\<open>for v in independent_set: residual_wt[v] -= min_wt_in_class\<close>\<close>

definition subtract_weight :: "(string \<Rightarrow> rat) \<Rightarrow> rat \<Rightarrow> string list \<Rightarrow> (string \<Rightarrow> rat)" where
  "subtract_weight residual_wt m independent_set =
     foldl (\<lambda>r v. r(v := r v - m)) residual_wt independent_set"

lemma set_greedily_find_independent_set:
  "set (greedily_find_independent_set g P) \<subseteq> set P"
  by (induction g P rule: greedily_find_independent_set.induct) auto

lemma distinct_greedily_find_independent_set:
  "distinct (greedily_find_independent_set g P)"
proof (induction g P rule: greedily_find_independent_set.induct)
  case (1 g)
  show ?case by simp
next
  case (2 g v ws)
  have "v \<notin> set (filter (\<lambda>w. v \<noteq> w \<and> \<not> has_edge g v w) (v # ws))"
    by simp
  with set_greedily_find_independent_set
  have "v \<notin> set (greedily_find_independent_set g (filter (\<lambda>w. v \<noteq> w \<and> \<not> has_edge g v w) (v # ws)))"
    by blast
  with 2 show ?case by simp
qed

lemma subtract_weight_Cons:
  "subtract_weight r m (x # xs) = subtract_weight (r(x := r x - m)) m xs"
  by (simp add: subtract_weight_def)

lemma subtract_weight_notin:
  "v \<notin> set xs \<Longrightarrow> subtract_weight r m xs v = r v"
proof (induction xs arbitrary: r)
  case Nil
  then show ?case by (simp add: subtract_weight_def)
next
  case (Cons x xs)
  then show ?case by (simp add: subtract_weight_Cons)
qed

lemma subtract_weight_in:
  "distinct xs \<Longrightarrow> v \<in> set xs \<Longrightarrow> subtract_weight r m xs v = r v - m"
proof (induction xs arbitrary: r)
  case Nil
  then show ?case by simp
next
  case (Cons x xs)
  show ?case
  proof (cases "v = x")
    case True
    with Cons.prems have "v \<notin> set xs" by simp
    then have "subtract_weight (r(x := r x - m)) m xs v = (r(x := r x - m)) v"
      by (rule subtract_weight_notin)
    also from True have "(r(x := r x - m)) v = r v - m" by simp
    finally show ?thesis by (simp only: subtract_weight_Cons)
  next
    case False
    with Cons.prems have "distinct xs" "v \<in> set xs" by simp_all
    then have "subtract_weight (r(x := r x - m)) m xs v = (r(x := r x - m)) v - m"
      by (rule Cons.IH)
    also from False have "(r(x := r x - m)) v = r v" by simp
    finally show ?thesis by (simp only: subtract_weight_Cons)
  qed
qed

text \<open>
  Modelled from the spec: \<open>find_branching_nodes\<close> is inherited from \<open>MaxWeightClique\<close>
  (networkx, not under src/) and is not overridden. It selects the branching set of step 2:
  the pool is partitioned greedily into independent groups; each group adds the least
  residual weight in it to the bound and has that weight taken off its nodes; nodes whose
  residual weight reaches 0 leave the pool; the nodes left when the bound exceeds
  \<open>target\<close>, the incumbent's weight less the candidate's, are the branching set, and
  when the pool runs empty first there is none. \<open>branching_loop\<close> is the library's
  \<open>while P\<close> loop, \<open>min\<close> of an empty class would raise ValueError, and
  \<open>find_branching_nodes\<close> sets up \<open>residual_wt\<close>, where a node without weight is a
  KeyError.
\<close>

function branching_loop ::
  "graph \<Rightarrow> (string \<Rightarrow> rat) \<Rightarrow> rat \<Rightarrow> rat \<Rightarrow> string list \<Rightarrow> error + string list" where
  "branching_loop g residual_wt total_wt target P =
     (if P = [] then Inr P
      else if greedily_find_independent_set g P = [] then Inl ValueError
      else if total_wt + Min (residual_wt ` set (greedily_find_independent_set g P)) > target
      then Inr P
      else branching_loop g
             (subtract_weight residual_wt
                (Min (residual_wt ` set (greedily_find_independent_set g P)))
                (greedily_find_independent_set g P))
             (total_wt + Min (residual_wt ` set (greedily_find_independent_set g P)))
             target
             (filter (\<lambda>v. subtract_weight residual_wt
                             (Min (residual_wt ` set (greedily_find_independent_set g P)))
                             (greedily_find_independent_set g P) v \<noteq> 0) P))"
  by pat_completeness auto
termination
proof (relation "measure (\<lambda>(g, r, tot, tgt, P). length P)", goal_cases)
  case 1
  show ?case by simp
next
  case (2 g residual_wt total_wt target P)
  let ?I = "greedily_find_independent_set g P"
  let ?m = "Min (residual_wt ` set ?I)"
  from 2 have "residual_wt ` set ?I \<noteq> {}" by simp
  then have "?m \<in> residual_wt ` set ?I" by (intro Min_in) simp_all
  then obtain u where u: "u \<in> set ?I" "residual_wt u = ?m" by auto
  then have "subtract_weight residual_wt ?m ?I u = 0"
    using subtract_weight_in[OF distinct_greedily_find_independent_set u(1)] by simp
  moreover from u set_greedily_find_independent_set have "u \<in> set P" by blast
  ultimately have "length (filter (\<lambda>v. subtract_weight residual_wt ?m ?I v \<noteq> 0) P) < length P"
    by (intro length_filter_less[of u]) simp_all
  then show ?case by simp
qed

declare branching_loop.simps [simp del]

definition find_branching_nodes ::
  "graph \<Rightarrow> (string \<times> rat) list \<Rightarrow> string list \<Rightarrow> rat \<Rightarrow> error + string list" where
  "find_branching_nodes g node_weights P target =
     (case List.find (\<lambda>v. map_of node_weights v = None) P of
        Some v \<Rightarrow> Inl (KeyError v)
      | None \<Rightarrow> branching_loop g (\<lambda>v. the (map_of node_weights v)) 0 target P)"

text \<open>
  \<open>expand\<close>, with the \<open>while branching_nodes\<close> loop as \<open>expand_loop\<close>.
  \<open>branching_nodes.pop()\<close> takes the last node; \<open>P.remove(v)\<close> raises ValueError when
  \<open>v\<close> is not in \<open>P\<close>, \<open>node_weights[v]\<close> raises KeyError for an unknown node. The
  incumbent is threaded through the recursive calls.
\<close>

function expand ::
    "graph \<Rightarrow> (string \<times> rat) list \<Rightarrow> incumbent \<Rightarrow> string list \<Rightarrow> rat \<Rightarrow> string list \<Rightarrow> error + incumbent"
  and expand_loop ::
    "graph \<Rightarrow> (string \<times> rat) list \<Rightarrow> incumbent \<Rightarrow> string list \<Rightarrow> rat \<Rightarrow> string list \<Rightarrow> string list
       \<Rightarrow> error + incumbent"
where
  "expand g node_weights inc C C_weight P =
     (case find_branching_nodes g node_weights P
             (incumbent_weight (update_incumbent_if_improved inc C C_weight) - C_weight) of
        Inl e \<Rightarrow> Inl e
      | Inr branching_nodes \<Rightarrow>
          expand_loop g node_weights (update_incumbent_if_improved inc C C_weight)
            C C_weight P branching_nodes)"
| "expand_loop g node_weights inc C C_weight P branching_nodes =
     (if branching_nodes = [] then Inr inc
      else if last branching_nodes \<notin> set P then Inl ValueError
      else
        (case map_of node_weights (last branching_nodes) of
           None \<Rightarrow> Inl (KeyError (last branching_nodes))
         | Some w \<Rightarrow>
             (case expand g node_weights inc (C @ [last branching_nodes]) (C_weight + w)
                     (filter (\<lambda>x. \<not> has_edge g (last branching_nodes) x)
                        (remove1 (last branching_nodes) P)) of
                Inl e \<Rightarrow> Inl e
              | Inr inc' \<Rightarrow>
                  expand_loop g node_weights inc' C C_weight
                    (remove1 (last branching_nodes) P) (butlast branching_nodes))))"
  by pat_completeness auto
termination
proof (relation "measure (\<lambda>x. case x of
                    Inl (g, nw, inc, C, Cw, P) \<Rightarrow> 2 * length P + 1
                  | Inr (g, nw, inc, C, Cw, P, bn) \<Rightarrow> 2 * length P)", goal_cases)
  case 1
  show ?case by simp
next
  case 2
  show ?case by simp
next
  case (3 g node_weights inc C C_weight P branching_nodes w)
  let ?v = "last branching_nodes"
  have "length (filter (\<lambda>x. \<not> has_edge g ?v x) (remove1 ?v P)) \<le> length (remove1 ?v P)"
    by (rule length_filter_le)
  moreover from 3 have "length (remove1 ?v P) < length P"
    using length_pos_if_in_set[of ?v P] by (simp add: length_remove1)
  ultimately have "length (filter (\<lambda>x. \<not> has_edge g ?v x) (remove1 ?v P)) < length P"
    by (rule le_less_trans)
  then show ?case by simp
next
  case (4 g node_weights inc C C_weight P branching_nodes w inc')
  let ?v = "last branching_nodes"
  from 4 have "length (remove1 ?v P) < length P"
    using length_pos_if_in_set[of ?v P] by (simp add: length_remove1)
  then show ?case by simp
qed

declare expand.simps [simp del] expand_loop.simps [simp del]

text \<open>
  Modelled from the spec: \<open>find_max_weight_clique\<close> is inherited from \<open>MaxWeightClique\<close>
  (networkx, not under src/). The pool is initially all graph nodes; the library takes them
  by decreasing degree (a stable sort, so nodes of equal degree keep the graph's order),
  drops those whose weight is not positive, and calls \<open>expand([], 0, nodes)\<close>.
\<close>

definition find_max_weight_clique :: "graph \<Rightarrow> (string \<times> rat) list \<Rightarrow> error + incumbent" where
  "find_max_weight_clique g node_weights =
     (case List.find (\<lambda>v. map_of node_weights v = None)
             (sort_key (\<lambda>v. - int (degree g v)) (map fst (nodes g))) of
        Some v \<Rightarrow> Inl (KeyError v)
      | None \<Rightarrow>
          expand g node_weights \<lparr>incumbent_nodes = [], incumbent_weight = 0\<rparr> [] 0
            (filter (\<lambda>v. the (map_of node_weights v) > 0)
               (sort_key (\<lambda>v. - int (degree g v)) (map fst (nodes g)))))"

text \<open>The solver as \<open>get_maximum_weighted_independient_set\<close> runs it; the function of
  the source returns the nodes of the incumbent.\<close>

definition solve :: "graph \<Rightarrow> error + incumbent" where
  "solve g =
     (case init_weights (nodes g) of
        Inl e \<Rightarrow> Inl e
      | Inr node_weights \<Rightarrow> find_max_weight_clique g node_weights)"

definition get_maximum_weighted_independient_set :: "graph \<Rightarrow> error + string list" where
  "get_maximum_weighted_independient_set g =
     (case solve g of Inl e \<Rightarrow> Inl e | Inr inc \<Rightarrow> Inr (incumbent_nodes inc))"

text \<open>\<open>get_highest_profit_schedule\<close>: the first component is the caller's list after the
  call.\<close>

definition get_highest_profit_schedule :: "task list \<Rightarrow> task list \<times> (error + string list)" where
  "get_highest_profit_schedule tasks =
     (case from_tasks_to_graph tasks of
        (tasks', Inl e) \<Rightarrow> (tasks', Inl e)
      | (tasks', Inr g) \<Rightarrow> (tasks', get_maximum_weighted_independient_set g))"

section \<open>The activations of expand\<close>

text \<open>
  The activations of \<open>expand\<close> that one call gives rise to, itself included, in the order
  in which they start: each with its depth below the top-level call, its candidate
  \<open>C\<close> and its pool \<open>P\<close>. The recursion is that of \<open>expand\<close> and \<open>expand_loop\<close>; the
  incumbent that a finished call leaves is taken from \<open>expand\<close>.
\<close>

function expand_calls ::
    "graph \<Rightarrow> (string \<times> rat) list \<Rightarrow> nat \<Rightarrow> incumbent \<Rightarrow> string list \<Rightarrow> rat \<Rightarrow> string list
       \<Rightarrow> (nat \<times> string list \<times> string list) list"
  and expand_loop_calls ::
    "graph \<Rightarrow> (string \<times> rat) list \<Rightarrow> nat \<Rightarrow> incumbent \<Rightarrow> string list \<Rightarrow> rat \<Rightarrow> string list
       \<Rightarrow> string list \<Rightarrow> (nat \<times> string list \<times> string list) list"
where
  "expand_calls g node_weights depth inc C C_weight P =
     (depth, C, P) #
     (case find_branching_nodes g node_weights P
             (incumbent_weight (update_incumbent_if_improved inc C C_weight) - C_weight) of
        Inl e \<Rightarrow> []
      | Inr branching_nodes \<Rightarrow>
          expand_loop_calls g node_weights depth (update_incumbent_if_improved inc C C_weight)
            C C_weight P branching_nodes)"
| "expand_loop_calls g node_weights depth inc C C_weight P branching_nodes =
     (if branching_nodes = [] then []
      else if last branching_nodes \<notin> set P then []
      else
        (case map_of node_weights (last branching_nodes) of
           None \<Rightarrow> []
         | Some w \<Rightarrow>
             expand_calls g node_weights (Suc depth) inc (C @ [last branching_nodes]) (C_weight + w)
               (filter (\<lambda>x. \<not> has_edge g (last branching_nodes) x)
                  (remove1 (last branching_nodes) P)) @
             (case expand g node_weights inc (C @ [last branching_nodes]) (C_weight + w)
                     (filter (\<lambda>x. \<not> has_edge g (last branching_nodes) x)
                        (remove1 (last branching_nodes) P)) of
                Inl e \<Rightarrow> []
              | Inr inc' \<Rightarrow>
                  expand_loop_calls g node_weights depth inc' C C_weight
                    (remove1 (last branching_nodes) P) (butlast branching_nodes))))"
  by pat_completeness auto
termination
proof (relation "measure (\<lambda>x. case x of
                    Inl (g, nw, d, inc, C, Cw, P) \<Rightarrow> 2 * length P + 1
                  | Inr (g, nw, d, inc, C, Cw, P, bn) \<Rightarrow> 2 * length P)", goal_cases)
  case 1
  show ?case by simp
next
  case 2
  show ?case by simp
next
  case (3 g node_weights depth inc C C_weight P branching_nodes w)
  let ?v = "last branching_nodes"
  have "length (filter (\<lambda>x. \<not> has_edge g ?v x) (remove1 ?v P)) \<le> length (remove1 ?v P)"
    by (rule length_filter_le)
  moreover from 3 have "length (remove1 ?v P) < length P"
    using length_pos_if_in_set[of ?v P] by (simp add: length_remove1)
  ultimately have "length (filter (\<lambda>x. \<not> has_edge g ?v x) (remove1 ?v P)) < length P"
    by (rule le_less_trans)
  then show ?case by simp
next
  case (4 g node_weights depth inc C C_weight P branching_nodes w inc')
  let ?v = "last branching_nodes"
  from 4 have "length (remove1 ?v P) < length P"
    using length_pos_if_in_set[of ?v P] by (simp add: length_remove1)
  then show ?case by simp
qed

declare expand_calls.simps [simp del] expand_loop_calls.simps [simp del]

text \<open>The pool with which \<open>find_max_weight_clique\<close> starts the search, and the activations
  of \<open>expand\<close> in a whole search.\<close>

definition initial_pool :: "graph \<Rightarrow> (string \<times> rat) list \<Rightarrow> string list" where
  "initial_pool g node_weights =
     filter (\<lambda>v. the (map_of node_weights v) > 0)
       (sort_key (\<lambda>v. - int (degree g v)) (map fst (nodes g)))"

definition search_calls ::
  "graph \<Rightarrow> (string \<times> rat) list \<Rightarrow> (nat \<times> string list \<times> string list) list" where
  "search_calls g node_weights =
     expand_calls g node_weights 0 \<lparr>incumbent_nodes = [], incumbent_weight = 0\<rparr> [] 0
       (initial_pool g node_weights)"

text \<open>A list of nodes no two of which are adjacent.\<close>

fun independent :: "graph \<Rightarrow> string list \<Rightarrow> bool" where
  "independent g [] = True"
| "independent g (v # vs) = ((\<forall>w \<in> set vs. \<not> has_edge g v w) \<and> independent g vs)"

text \<open>What holds of every activation in a search over the nodes \<open>M\<close>, \<open>N\<close> in number:
  the candidate is independent and not adjacent to the pool, its length is the depth, depth
  and pool together stay within \<open>N\<close>, and candidate and pool are drawn from \<open>M\<close>.\<close>

definition call_ok :: "graph \<Rightarrow> string multiset \<Rightarrow> nat \<Rightarrow> nat \<times> string list \<times> string list \<Rightarrow> bool" where
  "call_ok g M N c =
     (case c of (d, C, P) \<Rightarrow>
        independent g C \<and> (\<forall>c \<in> set C. \<forall>p \<in> set P. \<not> has_edge g c p) \<and>
        length C = d \<and> d + length P \<le> N \<and> mset C + mset P \<subseteq># M)"

section \<open>The scenario of the documentation\<close>

text \<open>The task list of the docstring of \<open>from_tasks_to_graph\<close>.\<close>

definition scenario_tasks :: "task list" where
  "scenario_tasks =
     [\<lparr>name = Some ''t1'', resources = Some [''a'', ''b'', ''c''], profit = Some (94 / 10)\<rparr>,
      \<lparr>name = Some ''t2'', resources = Some [''a'', ''d''], profit = Some (14 / 10)\<rparr>,
      \<lparr>name = Some ''t3'', resources = Some [''b''], profit = Some (32 / 10)\<rparr>,
      \<lparr>name = Some ''t4'', resources = Some [''c'', ''d''], profit = Some (63 / 10)\<rparr>]"

text \<open>The conflict graph of the scenario, as \<open>from_tasks_to_graph\<close> builds it, and its
  node weights.\<close>

definition scenario_conflict_graph :: graph where
  "scenario_conflict_graph =
     \<lparr>nodes = [(''t4'', Some (63 / 10)), (''t1'', Some (94 / 10)),
               (''t2'', Some (14 / 10)), (''t3'', Some (32 / 10))],
      edges = [(''t4'', ''t1''), (''t4'', ''t2''), (''t3'', ''t1''), (''t2'', ''t1'')]\<rparr>"

definition scenario_weights :: "(string \<times> rat) list" where
  "scenario_weights = [(''t4'', 63 / 10), (''t1'', 94 / 10), (''t2'', 14 / 10), (''t3'', 32 / 10)]"

text \<open>
  Six tasks with unique names and positive integer profits. \<open>x\<close> shares a resource with
  each of \<open>v\<close>, \<open>a\<close>, \<open>b\<close>, and so do \<open>z1\<close> and \<open>z2\<close>; no other two tasks share
  one. The tasks \<open>v\<close>, \<open>a\<close>, \<open>b\<close> together yield 9.
\<close>

definition pruned_tasks :: "task list" where
  "pruned_tasks =
     [\<lparr>name = Some ''x'', resources = Some [''xv'', ''xa'', ''xb''], profit = Some 5\<rparr>,
      \<lparr>name = Some ''v'', resources = Some [''xv'', ''z1v'', ''z2v''], profit = Some 3\<rparr>,
      \<lparr>name = Some ''a'', resources = Some [''xa'', ''z1a'', ''z2a''], profit = Some 3\<rparr>,
      \<lparr>name = Some ''b'', resources = Some [''xb'', ''z1b'', ''z2b''], profit = Some 3\<rparr>,
      \<lparr>name = Some ''z1'', resources = Some [''z1v'', ''z1a'', ''z1b''], profit = Some 1\<rparr>,
      \<lparr>name = Some ''z2'', resources = Some [''z2v'', ''z2a'', ''z2b''], profit = Some 1\<rparr>]"

text \<open>A task that lacks the \<open>resources\<close> key, and a well-formed one.\<close>

definition no_resources_task :: task where
  "no_resources_task = \<lparr>name = Some ''t1'', resources = None, profit = Some 1\<rparr>"

definition plain_task :: task where
  "plain_task = \<lparr>name = Some ''t2'', resources = Some [''a''], profit = Some 1\<rparr>"

section \<open>Reference notions of the specification\<close>

text \<open>A task list is well formed when every record has the three fields and the names are
  unique.\<close>

definition well_formed :: "task list \<Rightarrow> bool" where
  "well_formed tasks =
     ((\<forall>t \<in> set tasks. name t \<noteq> None \<and> resources t \<noteq> None \<and> profit t \<noteq> None) \<and>
      distinct (map name tasks))"

text \<open>Two tasks conflict when they share a resource.\<close>

definition conflict :: "task \<Rightarrow> task \<Rightarrow> bool" where
  "conflict a b =
     (case (resources a, resources b) of
        (Some r1, Some r2) \<Rightarrow> set r1 \<inter> set r2 \<noteq> {}
      | _ \<Rightarrow> False)"

text \<open>The summed profit of a schedule, which is a list of task names.\<close>

definition profit_of :: "task list \<Rightarrow> string \<Rightarrow> rat" where
  "profit_of tasks n =
     (case List.find (\<lambda>t. name t = Some n) tasks of
        Some t \<Rightarrow> (case profit t of Some p \<Rightarrow> p | None \<Rightarrow> 0)
      | None \<Rightarrow> 0)"

definition schedule_profit :: "task list \<Rightarrow> string list \<Rightarrow> rat" where
  "schedule_profit tasks schedule = sum_list (map (profit_of tasks) schedule)"

text \<open>The reference optimum, by exhaustive enumeration: the greatest summed profit of a
  sublist of the tasks in which no two tasks share a resource.\<close>

fun conflict_free :: "task list \<Rightarrow> bool" where
  "conflict_free [] = True"
| "conflict_free (t # ts) = ((\<forall>u \<in> set ts. \<not> conflict t u) \<and> conflict_free ts)"

definition best_profit :: "task list \<Rightarrow> rat" where
  "best_profit tasks =
     Max (set (map (\<lambda>s. sum_list (map (\<lambda>t. case profit t of Some p \<Rightarrow> p | None \<Rightarrow> 0) s))
                (filter conflict_free (subseqs tasks))))"

section \<open>Properties of the graph builder\<close>

text \<open>A simple graph: no edge stored twice, in either orientation, and so no self-loop.\<close>

definition simple_graph :: "graph \<Rightarrow> bool" where
  "simple_graph g =
     (distinct (edges g) \<and> (\<forall>e \<in> set (edges g). (snd e, fst e) \<notin> set (edges g)))"

text \<open>The state of the graph when the tasks \<open>done\<close> have been popped and \<open>rest\<close> are
  still in the list.\<close>

definition built :: "graph \<Rightarrow> task list \<Rightarrow> task list \<Rightarrow> bool" where
  "built g rest done =
     (distinct (map fst (nodes g)) \<and>
      simple_graph g \<and>
      (\<forall>k. has_node g k \<longrightarrow> (\<exists>t \<in> set (rest @ done). name t = Some k)) \<and>
      (\<forall>d \<in> set done. \<forall>k. name d = Some k \<longrightarrow> map_of (nodes g) k = Some (profit d)) \<and>
      (\<forall>u v. has_edge g u v =
         (\<exists>a \<in> set (rest @ done). \<exists>b \<in> set done. conflict a b \<and> a \<noteq> b \<and>
            ((name a = Some u \<and> name b = Some v) \<or> (name a = Some v \<and> name b = Some u)))))"



lemma has_node_touch_node [simp]: "has_node (touch_node g n) k = (k = n \<or> has_node g k)"
  by (auto simp: touch_node_def has_node_def)

lemma edges_touch_node [simp]: "edges (touch_node g n) = edges g"
  by (simp add: touch_node_def)

lemma has_edge_touch_node [simp]: "has_edge (touch_node g n) u v = has_edge g u v"
  by (simp add: has_edge_def)

lemma distinct_touch_node:
  "distinct (map fst (nodes g)) \<Longrightarrow> distinct (map fst (nodes (touch_node g n)))"
  by (auto simp: touch_node_def has_node_def)

lemma map_of_touch_node:
  "has_node g k \<Longrightarrow> map_of (nodes (touch_node g n)) k = map_of (nodes g) k"
  by (auto simp: touch_node_def has_node_def map_add_def split: option.splits
           dest: weak_map_of_SomeI)

lemma has_node_add_edge [simp]:
  "has_node (add_edge g u v) k = (k = u \<or> k = v \<or> has_node g k)"
  by (auto simp: add_edge_def Let_def has_node_def touch_node_def)

lemma has_edge_add_edge [simp]:
  "has_edge (add_edge g u v) a b = (has_edge g a b \<or> (a = u \<and> b = v) \<or> (a = v \<and> b = u))"
  by (auto simp: add_edge_def Let_def has_edge_def)

lemma distinct_add_edge:
  "distinct (map fst (nodes g)) \<Longrightarrow> distinct (map fst (nodes (add_edge g u v)))"
  by (simp add: add_edge_def Let_def distinct_touch_node)

lemma map_of_add_edge:
  "has_node g k \<Longrightarrow> map_of (nodes (add_edge g u v)) k = map_of (nodes g) k"
  by (simp add: add_edge_def Let_def map_of_touch_node)

lemma simple_graph_add_edge:
  "simple_graph g \<Longrightarrow> u \<noteq> v \<Longrightarrow> simple_graph (add_edge g u v)"
  by (auto simp: add_edge_def Let_def simple_graph_def has_edge_def)

lemma has_node_add_node [simp]: "has_node (add_node g n p) k = (k = n \<or> has_node g k)"
  by (force simp: add_node_def has_node_def split: if_splits)

lemma edges_add_node [simp]: "edges (add_node g n p) = edges g"
  by (simp add: add_node_def)

lemma has_edge_add_node [simp]: "has_edge (add_node g n p) u v = has_edge g u v"
  by (simp add: has_edge_def)

lemma simple_graph_add_node [simp]: "simple_graph (add_node g n p) = simple_graph g"
  by (simp add: simple_graph_def)

lemma map_fst_overwrite:
  "map fst (map (\<lambda>(k, a). if k = n then (k, Some p) else (k, a)) xs) = map fst xs"
  by (induction xs) auto

lemma map_of_overwrite:
  "map_of (map (\<lambda>(k, a). if k = n then (k, Some p) else (k, a)) xs) k' =
     (if k' = n \<and> n \<in> fst ` set xs then Some (Some p) else map_of xs k')"
proof (induction xs)
  case Nil
  show ?case by simp
next
  case (Cons x xs)
  obtain k a where x: "x = (k, a)" by (cases x)
  show ?case
  proof (cases "k = n")
    case True
    with x Cons show ?thesis by simp
  next
    case False
    with x Cons show ?thesis by (cases "k' = k") simp_all
  qed
qed

lemma distinct_add_node:
  "distinct (map fst (nodes g)) \<Longrightarrow> distinct (map fst (nodes (add_node g n p)))"
  by (simp add: add_node_def has_node_def map_fst_overwrite del: map_map)

lemma map_of_add_node:
  "map_of (nodes (add_node g n p)) k = (if k = n then Some (Some p) else map_of (nodes g) k)"
proof (cases "has_node g n")
  case True
  then show ?thesis by (simp add: add_node_def map_of_overwrite has_node_def)
next
  case False
  then have "map_of (nodes g) n = None"
    by (simp add: has_node_def map_of_eq_None_iff)
  with False show ?thesis
    by (simp add: add_node_def map_add_def split: option.splits)
qed


lemma are_incompatibles_iff: "are_incompatibles r1 r2 = (set r1 \<inter> set r2 \<noteq> {})"
  by (auto simp: are_incompatibles_def)

lemma conflict_sym: "conflict a b = conflict b a"
  by (auto simp: conflict_def split: option.splits)

lemma add_conflicts_ok:
  assumes "resources t1 \<noteq> None" "name t1 \<noteq> None"
    and "\<forall>t \<in> set ts. name t \<noteq> None \<and> resources t \<noteq> None"
  shows "\<exists>g'. add_conflicts g t1 ts = Inr g'"
  using assms by (induction ts arbitrary: g) auto

lemma add_conflicts_has_edge:
  assumes "add_conflicts g t1 ts = Inr g'" "name t1 = Some n1"
  shows "has_edge g' u v =
           (has_edge g u v \<or>
            (\<exists>t2 \<in> set ts. conflict t1 t2 \<and>
               ((u = n1 \<and> name t2 = Some v) \<or> (v = n1 \<and> name t2 = Some u))))"
  using assms
proof (induction ts arbitrary: g)
  case Nil
  then show ?case by simp
next
  case (Cons t2 ts)
  from Cons.prems obtain r1 r2 where r: "resources t1 = Some r1" "resources t2 = Some r2"
    by (auto split: option.splits)
  show ?case
  proof (cases "are_incompatibles r1 r2")
    case True
    with Cons.prems r obtain n2 where n2: "name t2 = Some n2"
      and rec: "add_conflicts (add_edge g n1 n2) t1 ts = Inr g'"
      by (auto split: option.splits)
    from True r have c: "conflict t1 t2" by (simp add: conflict_def are_incompatibles_iff)
    from Cons.IH[OF rec Cons.prems(2)] n2 c show ?thesis by auto
  next
    case False
    with Cons.prems r have rec: "add_conflicts g t1 ts = Inr g'" by simp
    from False r have c: "\<not> conflict t1 t2" by (simp add: conflict_def are_incompatibles_iff)
    from Cons.IH[OF rec Cons.prems(2)] c show ?thesis by auto
  qed
qed

lemma add_conflicts_has_node:
  "add_conflicts g t1 ts = Inr g' \<Longrightarrow> has_node g' k \<Longrightarrow>
     has_node g k \<or> name t1 = Some k \<or> (\<exists>t2 \<in> set ts. name t2 = Some k)"
proof (induction ts arbitrary: g)
  case Nil
  then show ?case by simp
next
  case (Cons t2 ts)
  from Cons.prems(1) obtain r1 r2 where r: "resources t1 = Some r1" "resources t2 = Some r2"
    by (auto split: option.splits)
  show ?case
  proof (cases "are_incompatibles r1 r2")
    case True
    with Cons.prems r obtain n1 n2 where n: "name t1 = Some n1" "name t2 = Some n2"
      and rec: "add_conflicts (add_edge g n1 n2) t1 ts = Inr g'"
      by (auto split: option.splits)
    from Cons.IH[OF rec Cons.prems(2)] n show ?thesis by auto
  next
    case False
    with Cons.prems r have rec: "add_conflicts g t1 ts = Inr g'" by simp
    from Cons.IH[OF rec Cons.prems(2)] show ?thesis by auto
  qed
qed

lemma add_conflicts_distinct:
  "add_conflicts g t1 ts = Inr g' \<Longrightarrow> distinct (map fst (nodes g)) \<Longrightarrow>
     distinct (map fst (nodes g'))"
  by (induction ts arbitrary: g) (auto split: option.splits if_splits intro: distinct_add_edge)

lemma add_conflicts_map_of:
  "add_conflicts g t1 ts = Inr g' \<Longrightarrow> has_node g k \<Longrightarrow>
     map_of (nodes g') k = map_of (nodes g) k"
proof (induction ts arbitrary: g)
  case Nil
  then show ?case by simp
next
  case (Cons t2 ts)
  from Cons.prems(1) obtain r1 r2 where r: "resources t1 = Some r1" "resources t2 = Some r2"
    by (auto split: option.splits)
  show ?case
  proof (cases "are_incompatibles r1 r2")
    case True
    with Cons.prems r obtain n1 n2 where n: "name t1 = Some n1" "name t2 = Some n2"
      and rec: "add_conflicts (add_edge g n1 n2) t1 ts = Inr g'"
      by (auto split: option.splits)
    from Cons.prems(2) have "has_node (add_edge g n1 n2) k" by simp
    from Cons.IH[OF rec this] Cons.prems(2) show ?thesis by (simp add: map_of_add_edge)
  next
    case False
    with Cons.prems r have rec: "add_conflicts g t1 ts = Inr g'" by simp
    from Cons.IH[OF rec Cons.prems(2)] show ?thesis .
  qed
qed

lemma add_conflicts_simple:
  "add_conflicts g t1 ts = Inr g' \<Longrightarrow> simple_graph g \<Longrightarrow>
     \<forall>t2 \<in> set ts. name t2 \<noteq> name t1 \<Longrightarrow> simple_graph g'"
proof (induction ts arbitrary: g)
  case Nil
  then show ?case by simp
next
  case (Cons t2 ts)
  from Cons.prems(1) obtain r1 r2 where r: "resources t1 = Some r1" "resources t2 = Some r2"
    by (auto split: option.splits)
  from Cons.prems(3) have rest: "\<forall>t2 \<in> set ts. name t2 \<noteq> name t1" by simp
  show ?case
  proof (cases "are_incompatibles r1 r2")
    case True
    with Cons.prems r obtain n1 n2 where n: "name t1 = Some n1" "name t2 = Some n2"
      and rec: "add_conflicts (add_edge g n1 n2) t1 ts = Inr g'"
      by (auto split: option.splits)
    from n Cons.prems(3) have "n1 \<noteq> n2" by auto
    with Cons.prems(2) have "simple_graph (add_edge g n1 n2)" by (rule simple_graph_add_edge)
    from Cons.IH[OF rec this rest] show ?thesis .
  next
    case False
    with Cons.prems r have rec: "add_conflicts g t1 ts = Inr g'" by simp
    from Cons.IH[OF rec Cons.prems(2) rest] show ?thesis .
  qed
qed

lemma build_graph_Nil: "build_graph g [] = ([], Inr g)"
  by (simp add: build_graph.simps)

lemma build_graph_snoc:
  "build_graph g (ts @ [t]) =
     (case (name t, profit t) of
        (Some n, Some p) \<Rightarrow>
          (case add_conflicts (add_node g n p) t ts of
             Inl e \<Rightarrow> (ts, Inl e)
           | Inr g' \<Rightarrow> build_graph g' ts)
      | _ \<Rightarrow> (ts, Inl (InvalidTaskFormat t)))"
  by (subst build_graph.simps) (simp split: option.splits sum.splits)


lemma map_of_has_node: "map_of (nodes g) k = Some a \<Longrightarrow> has_node g k"
  by (auto simp: has_node_def dest: map_of_SomeD intro: rev_image_eqI)

lemma built_step:
  assumes wf: "well_formed (ts @ t # done)"
    and inv: "built g (ts @ [t]) done"
    and n: "name t = Some n" and p: "profit t = Some p"
    and ac: "add_conflicts (add_node g n p) t ts = Inr g'"
  shows "built g' ts (t # done)"
proof -
  let ?g1 = "add_node g n p"
  from wf have names: "distinct (map name (ts @ t # done))"
    and fields: "\<forall>x \<in> set (ts @ t # done). name x \<noteq> None \<and> resources x \<noteq> None \<and> profit x \<noteq> None"
    by (simp_all add: well_formed_def)
  from names have t_ts: "\<forall>t2 \<in> set ts. name t2 \<noteq> name t"
    and t_done: "\<forall>d \<in> set done. name d \<noteq> name t"
    and t_notin: "t \<notin> set ts" "t \<notin> set done"
    by (auto simp: image_iff)
  from inv have d: "distinct (map fst (nodes g))" and s: "simple_graph g"
    and nd: "\<forall>k. has_node g k \<longrightarrow> (\<exists>t \<in> set ((ts @ [t]) @ done). name t = Some k)"
    and at: "\<forall>d \<in> set done. \<forall>k. name d = Some k \<longrightarrow> map_of (nodes g) k = Some (profit d)"
    and ed: "\<forall>u v. has_edge g u v =
         (\<exists>a \<in> set ((ts @ [t]) @ done). \<exists>b \<in> set done. conflict a b \<and> a \<noteq> b \<and>
            ((name a = Some u \<and> name b = Some v) \<or> (name a = Some v \<and> name b = Some u)))"
    by (simp_all add: built_def)
  have 1: "distinct (map fst (nodes g'))"
    using add_conflicts_distinct[OF ac distinct_add_node[OF d]] .
  have 2: "simple_graph g'"
    using add_conflicts_simple[OF ac _ t_ts] s by simp
  have 3: "\<forall>k. has_node g' k \<longrightarrow> (\<exists>x \<in> set (ts @ t # done). name x = Some k)"
  proof (intro allI impI)
    fix k assume "has_node g' k"
    from add_conflicts_has_node[OF ac this]
    have "has_node g k \<or> k = n \<or> (\<exists>t2 \<in> set ts. name t2 = Some k)"
      using n by auto
    with nd n show "\<exists>x \<in> set (ts @ t # done). name x = Some k" by auto
  qed
  have 4: "\<forall>d \<in> set (t # done). \<forall>k. name d = Some k \<longrightarrow> map_of (nodes g') k = Some (profit d)"
  proof (intro ballI allI impI)
    fix d k assume dk: "d \<in> set (t # done)" "name d = Some k"
    have "map_of (nodes ?g1) k = Some (profit d)"
    proof (cases "d = t")
      case True
      with dk n p show ?thesis by (simp add: map_of_add_node)
    next
      case False
      with dk have "d \<in> set done" by simp
      with t_done dk n at show ?thesis by (auto simp: map_of_add_node)
    qed
    moreover from this have "has_node ?g1 k" by (rule map_of_has_node)
    ultimately show "map_of (nodes g') k = Some (profit d)"
      using add_conflicts_map_of[OF ac] by simp
  qed
  have 5: "\<forall>u v. has_edge g' u v =
         (\<exists>a \<in> set (ts @ t # done). \<exists>b \<in> set (t # done). conflict a b \<and> a \<noteq> b \<and>
            ((name a = Some u \<and> name b = Some v) \<or> (name a = Some v \<and> name b = Some u)))"
  proof (intro allI)
    fix u v
    have e: "has_edge g' u v =
           (has_edge g u v \<or>
            (\<exists>t2 \<in> set ts. conflict t t2 \<and>
               ((u = n \<and> name t2 = Some v) \<or> (v = n \<and> name t2 = Some u))))"
      using add_conflicts_has_edge[OF ac n, of u v] by simp
    show "has_edge g' u v =
         (\<exists>a \<in> set (ts @ t # done). \<exists>b \<in> set (t # done). conflict a b \<and> a \<noteq> b \<and>
            ((name a = Some u \<and> name b = Some v) \<or> (name a = Some v \<and> name b = Some u)))"
      (is "_ = ?R")
    proof
      assume "has_edge g' u v"
      with e consider (old) "has_edge g u v"
        | (new) t2 where "t2 \<in> set ts" "conflict t t2"
            "(u = n \<and> name t2 = Some v) \<or> (v = n \<and> name t2 = Some u)"
        by blast
      then show ?R
      proof cases
        case old
        with ed show ?thesis by auto
      next
        case new
        with t_notin have "t2 \<noteq> t" by auto
        with new n conflict_sym[of t t2] show ?thesis
          by (intro bexI[of _ t2] bexI[of _ t]) auto
      qed
    next
      assume ?R
      then obtain a b where ab: "a \<in> set (ts @ t # done)" "b \<in> set (t # done)"
        "conflict a b" "a \<noteq> b"
        "(name a = Some u \<and> name b = Some v) \<or> (name a = Some v \<and> name b = Some u)"
        by blast
      show "has_edge g' u v"
      proof (cases "b = t")
        case bt: True
        show ?thesis
        proof (cases "a \<in> set ts")
          case True
          with ab bt n conflict_sym[of a t] e show ?thesis by auto
        next
          case False
          with ab bt have "a \<in> set done" by auto
          moreover have "t \<in> set ((ts @ [t]) @ done)" by simp
          ultimately have "has_edge g u v"
            using ab bt conflict_sym[of a t] ed by blast
          with e show ?thesis by simp
        qed
      next
        case False
        with ab have "b \<in> set done" "a \<in> set ((ts @ [t]) @ done)" by auto
        with ab ed have "has_edge g u v" by blast
        with e show ?thesis by simp
      qed
    qed
  qed
  from 1 2 3 4 5 show ?thesis unfolding built_def by blast
qed

lemma build_graph_built:
  "well_formed (ts @ done) \<Longrightarrow> built g ts done \<Longrightarrow>
     \<exists>g'. build_graph g ts = ([], Inr g') \<and> built g' [] (ts @ done)"
proof (induction ts arbitrary: g "done" rule: rev_induct)
  case Nil
  then show ?case by (simp add: build_graph_Nil)
next
  case (snoc t ts)
  from snoc.prems(1) have wf: "well_formed (ts @ t # done)" by simp
  then have f: "\<forall>x \<in> set (ts @ t # done). name x \<noteq> None \<and> resources x \<noteq> None \<and> profit x \<noteq> None"
    by (simp add: well_formed_def)
  then obtain n p where np: "name t = Some n" "profit t = Some p" by auto
  from f have "resources t \<noteq> None" "name t \<noteq> None"
    "\<forall>x \<in> set ts. name x \<noteq> None \<and> resources x \<noteq> None" by auto
  from add_conflicts_ok[OF this] obtain g1
    where ac: "add_conflicts (add_node g n p) t ts = Inr g1" by blast
  from built_step[OF wf snoc.prems(2) np ac] have b: "built g1 ts (t # done)" .
  from snoc.IH[OF wf b] np ac show ?case by (simp add: build_graph_snoc)
qed

lemma built_empty: "built empty_graph ts []"
  by (simp add: built_def empty_graph_def simple_graph_def has_node_def has_edge_def)

lemma from_tasks_to_graph_built:
  "well_formed tasks \<Longrightarrow> \<exists>g. from_tasks_to_graph tasks = ([], Inr g) \<and> built g [] tasks"
  using build_graph_built[of tasks "[]" empty_graph] built_empty
  by (simp add: from_tasks_to_graph_def)

lemma built_final:
  assumes wf: "well_formed tasks" and b: "built g [] tasks"
  shows "distinct (map fst (nodes g))"
    and "simple_graph g"
    and "has_node g k = (\<exists>t \<in> set tasks. name t = Some k)"
    and "t \<in> set tasks \<Longrightarrow> name t = Some k \<Longrightarrow> map_of (nodes g) k = Some (profit t)"
    and "a \<in> set tasks \<Longrightarrow> b' \<in> set tasks \<Longrightarrow> name a = Some u \<Longrightarrow> name b' = Some v \<Longrightarrow>
           has_edge g u v = (a \<noteq> b' \<and> conflict a b')"
    and "has_edge g u v \<Longrightarrow> has_node g u \<and> has_node g v"
proof -
  from b have d: "distinct (map fst (nodes g))" and s: "simple_graph g"
    and nd: "\<forall>k. has_node g k \<longrightarrow> (\<exists>t \<in> set tasks. name t = Some k)"
    and at: "\<forall>d \<in> set tasks. \<forall>k. name d = Some k \<longrightarrow> map_of (nodes g) k = Some (profit d)"
    and ed: "\<forall>u v. has_edge g u v =
         (\<exists>a \<in> set tasks. \<exists>b \<in> set tasks. conflict a b \<and> a \<noteq> b \<and>
            ((name a = Some u \<and> name b = Some v) \<or> (name a = Some v \<and> name b = Some u)))"
    by (simp_all add: built_def)
  from wf have inj: "inj_on name (set tasks)"
    by (simp add: well_formed_def distinct_map)
  show "distinct (map fst (nodes g))" by (rule d)
  show "simple_graph g" by (rule s)
  have hn: "has_node g k'" if "t' \<in> set tasks" "name t' = Some k'" for t' k'
    using at that map_of_has_node by blast
  with nd show "has_node g k = (\<exists>t \<in> set tasks. name t = Some k)" by blast
  show "map_of (nodes g) k = Some (profit t)" if "t \<in> set tasks" "name t = Some k"
    using at that by blast
  show "has_edge g u v = (a \<noteq> b' \<and> conflict a b')"
    if ab: "a \<in> set tasks" "b' \<in> set tasks" "name a = Some u" "name b' = Some v"
  proof
    assume "has_edge g u v"
    with ed obtain x y where xy: "x \<in> set tasks" "y \<in> set tasks" "conflict x y" "x \<noteq> y"
      "(name x = Some u \<and> name y = Some v) \<or> (name x = Some v \<and> name y = Some u)"
      by blast
    from xy(5) show "a \<noteq> b' \<and> conflict a b'"
    proof
      assume "name x = Some u \<and> name y = Some v"
      with ab xy inj have "x = a" "y = b'" by (simp_all add: inj_on_def)
      with xy show ?thesis by simp
    next
      assume "name x = Some v \<and> name y = Some u"
      with ab xy inj have "x = b'" "y = a" by (simp_all add: inj_on_def)
      with xy conflict_sym[of a b'] show ?thesis by auto
    qed
  next
    assume "a \<noteq> b' \<and> conflict a b'"
    with ab ed show "has_edge g u v" by blast
  qed
  show "has_node g u \<and> has_node g v" if "has_edge g u v"
    using that ed hn by blast
qed

lemma simple_graph_no_loop: "simple_graph g \<Longrightarrow> \<not> has_edge g u u"
  by (auto simp: simple_graph_def has_edge_def)

lemma has_edge_sym: "has_edge g u v = has_edge g v u"
  by (auto simp: has_edge_def)

lemma length_nodes_built:
  assumes wf: "well_formed tasks" and b: "built g [] tasks"
  shows "length (nodes g) = length tasks"
proof -
  from wf have dn: "distinct (map name tasks)" by (simp add: well_formed_def)
  have dg: "distinct (map fst (nodes g))" using built_final(1)[OF wf b] .
  then have dg': "distinct (map (Some \<circ> fst) (nodes g))"
    by (simp add: distinct_map comp_inj_on_iff inj_on_def)
  have "set (map (Some \<circ> fst) (nodes g)) = set (map name tasks)"
  proof (rule set_eqI)
    fix x
    show "x \<in> set (map (Some \<circ> fst) (nodes g)) = (x \<in> set (map name tasks))"
    proof (cases x)
      case None
      with wf show ?thesis by (auto simp: well_formed_def)
    next
      case (Some k)
      have "x \<in> set (map (Some \<circ> fst) (nodes g)) = has_node g k"
        using Some by (auto simp: has_node_def image_iff)
      also have "\<dots> = (\<exists>t \<in> set tasks. name t = Some k)"
        using built_final(3)[OF wf b] .
      also have "\<dots> = (x \<in> set (map name tasks))" using Some by (force simp: image_iff)
      finally show ?thesis .
    qed
  qed
  with dg' dn have "length (map (Some \<circ> fst) (nodes g)) = length (map name tasks)"
    by (metis distinct_card)
  then show ?thesis by simp
qed

lemma well_formed_scenario_tasks: "well_formed scenario_tasks"
  by code_simp

text \<open>
  C7. For every well-formed task list (all three fields present, names unique),
  \<open>from_tasks_to_graph\<close> returns a graph with one node per task, carrying the task's
  profit; two tasks are joined by an edge exactly when they are distinct and their resource
  lists intersect; edges join nodes only; adjacency and the incompatibility test are
  symmetric; there is no self-loop and no edge is stored twice.
\<close>

theorem conflict_graph_of_well_formed_tasks:
  assumes "well_formed tasks"
  shows "\<exists>g. from_tasks_to_graph tasks = ([], Inr g) \<and>
           length (nodes g) = length tasks \<and>
           distinct (map fst (nodes g)) \<and>
           (\<forall>k. has_node g k = (\<exists>t \<in> set tasks. name t = Some k)) \<and>
           (\<forall>t \<in> set tasks. \<forall>k. name t = Some k \<longrightarrow> map_of (nodes g) k = Some (profit t)) \<and>
           (\<forall>a \<in> set tasks. \<forall>b \<in> set tasks. \<forall>u v. name a = Some u \<longrightarrow> name b = Some v \<longrightarrow>
              has_edge g u v = (a \<noteq> b \<and> conflict a b)) \<and>
           (\<forall>u v. has_edge g u v \<longrightarrow> has_node g u \<and> has_node g v) \<and>
           (\<forall>u v. has_edge g u v = has_edge g v u) \<and>
           (\<forall>r1 r2. are_incompatibles r1 r2 = are_incompatibles r2 r1 \<and>
                    are_incompatibles r1 r2 = (set r1 \<inter> set r2 \<noteq> {})) \<and>
           (\<forall>u. \<not> has_edge g u u) \<and>
           distinct (edges g) \<and>
           (\<forall>e \<in> set (edges g). (snd e, fst e) \<notin> set (edges g))"
proof -
  from from_tasks_to_graph_built[OF assms] obtain g
    where g: "from_tasks_to_graph tasks = ([], Inr g)" and b: "built g [] tasks" by blast
  note f = built_final[OF assms b]
  have "length (nodes g) = length tasks" by (rule length_nodes_built[OF assms b])
  moreover have "\<forall>k. has_node g k = (\<exists>t \<in> set tasks. name t = Some k)" using f(3) by blast
  moreover have "\<forall>t \<in> set tasks. \<forall>k. name t = Some k \<longrightarrow> map_of (nodes g) k = Some (profit t)"
    using f(4) by blast
  moreover have "\<forall>a \<in> set tasks. \<forall>b \<in> set tasks. \<forall>u v. name a = Some u \<longrightarrow> name b = Some v \<longrightarrow>
              has_edge g u v = (a \<noteq> b \<and> conflict a b)"
    using f(5) by blast
  moreover have "\<forall>u v. has_edge g u v \<longrightarrow> has_node g u \<and> has_node g v" using f(6) by blast
  moreover have "\<forall>u v. has_edge g u v = has_edge g v u" using has_edge_sym by blast
  moreover have "\<forall>r1 r2. are_incompatibles r1 r2 = are_incompatibles r2 r1 \<and>
                    are_incompatibles r1 r2 = (set r1 \<inter> set r2 \<noteq> {})"
    by (auto simp: are_incompatibles_iff)
  moreover have "\<forall>u. \<not> has_edge g u u" using simple_graph_no_loop[OF f(2)] by blast
  moreover have "distinct (edges g)" "\<forall>e \<in> set (edges g). (snd e, fst e) \<notin> set (edges g)"
    using f(2) by (simp_all add: simple_graph_def)
  ultimately show ?thesis using g f(1) by blast
qed

theorem conflict_graph_of_well_formed_tasks_witness:
  "well_formed scenario_tasks \<and>
   (\<exists>g. from_tasks_to_graph scenario_tasks = ([], Inr g) \<and>
        length (nodes g) = length scenario_tasks \<and> (\<forall>u. \<not> has_edge g u u))"
  using conflict_graph_of_well_formed_tasks[OF well_formed_scenario_tasks]
    well_formed_scenario_tasks
  by blast

section \<open>Concrete runs\<close>

lemma scenario_graph: "from_tasks_to_graph scenario_tasks = ([], Inr scenario_conflict_graph)"
  by code_simp

lemma scenario_edges:
  "has_edge scenario_conflict_graph u v =
     ({u, v} \<in> {{''t1'', ''t2''}, {''t1'', ''t3''}, {''t1'', ''t4''}, {''t2'', ''t4''}})"
  by (auto simp: scenario_conflict_graph_def has_edge_def doubleton_eq_iff)

lemma scenario_result:
  "get_highest_profit_schedule scenario_tasks = ([], Inr [''t3'', ''t4''])"
  by code_simp

lemma scenario_weight:
  "solve scenario_conflict_graph =
     Inr \<lparr>incumbent_nodes = [''t3'', ''t4''], incumbent_weight = 95 / 10\<rparr>"
  by code_simp

lemma scenario_profit: "schedule_profit scenario_tasks [''t3'', ''t4''] = 95 / 10"
  by code_simp

text \<open>
  C5. On the scenario of the documentation the graph has the nodes t1 to t4 and exactly
  the edges (t1,t2), (t1,t3), (t1,t4), (t2,t4); the schedule returned is t3, t4, the
  solver's weight and the summed profit are 9.5.
\<close>

theorem scenario_schedule:
  "from_tasks_to_graph scenario_tasks = ([], Inr scenario_conflict_graph) \<and>
   map fst (nodes scenario_conflict_graph) = [''t4'', ''t1'', ''t2'', ''t3''] \<and>
   (\<forall>u v. has_edge scenario_conflict_graph u v =
      ({u, v} \<in> {{''t1'', ''t2''}, {''t1'', ''t3''}, {''t1'', ''t4''}, {''t2'', ''t4''}})) \<and>
   get_highest_profit_schedule scenario_tasks = ([], Inr [''t3'', ''t4'']) \<and>
   solve scenario_conflict_graph =
     Inr \<lparr>incumbent_nodes = [''t3'', ''t4''], incumbent_weight = 95 / 10\<rparr> \<and>
   schedule_profit scenario_tasks [''t3'', ''t4''] = 95 / 10"
  using scenario_graph scenario_edges scenario_result scenario_weight scenario_profit
  by (simp add: scenario_conflict_graph_def)

text \<open>
  C8. The empty task list gives the empty graph, the empty schedule and the solver's
  weight 0; no exception is raised.
\<close>

theorem empty_task_list:
  "from_tasks_to_graph [] = ([], Inr empty_graph) \<and>
   solve empty_graph = Inr \<lparr>incumbent_nodes = [], incumbent_weight = 0\<rparr> \<and>
   get_highest_profit_schedule [] = ([], Inr [])"
  by code_simp

text \<open>
  C1, at a failing input. \<open>pruned_tasks\<close> is well formed; the schedule returned is
  x, z1, z2 with summed profit 7, while the greatest summed profit of a conflict-free
  selection is 9 (v, a, b).
\<close>

theorem pruned_tasks_not_optimal:
  "well_formed pruned_tasks \<and>
   get_highest_profit_schedule pruned_tasks = ([], Inr [''x'', ''z1'', ''z2'']) \<and>
   schedule_profit pruned_tasks [''x'', ''z1'', ''z2''] = 7 \<and>
   best_profit pruned_tasks = 9"
  by code_simp

theorem pruned_tasks_not_optimal_witness:
  "well_formed pruned_tasks \<and>
   schedule_profit pruned_tasks [''x'', ''z1'', ''z2''] < best_profit pruned_tasks"
  using pruned_tasks_not_optimal by simp

text \<open>
  C6, at a failing input. Rotating \<open>pruned_tasks\<close> by two places is a permutation of it;
  the schedule for the rotated list is b, a, v with summed profit 9, the schedule for the
  list itself has summed profit 7.
\<close>

theorem pruned_tasks_order_dependent:
  "mset (rotate 2 pruned_tasks) = mset pruned_tasks \<and>
   well_formed pruned_tasks \<and>
   (\<exists>s1 s2. get_highest_profit_schedule pruned_tasks = ([], Inr s1) \<and>
            get_highest_profit_schedule (rotate 2 pruned_tasks) = ([], Inr s2) \<and>
            schedule_profit pruned_tasks s1 = 7 \<and>
            schedule_profit (rotate 2 pruned_tasks) s2 = 9)"
proof -
  have "mset (rotate 2 pruned_tasks) = mset pruned_tasks" by code_simp
  moreover have "well_formed pruned_tasks" by code_simp
  moreover have "get_highest_profit_schedule pruned_tasks = ([], Inr [''x'', ''z1'', ''z2''])"
    by code_simp
  moreover have "get_highest_profit_schedule (rotate 2 pruned_tasks) = ([], Inr [''b'', ''a'', ''v''])"
    by code_simp
  moreover have "schedule_profit pruned_tasks [''x'', ''z1'', ''z2''] = 7" by code_simp
  moreover have "schedule_profit (rotate 2 pruned_tasks) [''b'', ''a'', ''v''] = 9" by code_simp
  ultimately show ?thesis by blast
qed

theorem pruned_tasks_order_dependent_witness:
  "well_formed pruned_tasks \<and>
   (\<exists>s1 s2. get_highest_profit_schedule pruned_tasks = ([], Inr s1) \<and>
            get_highest_profit_schedule (rotate 2 pruned_tasks) = ([], Inr s2) \<and>
            schedule_profit pruned_tasks s1 < schedule_profit (rotate 2 pruned_tasks) s2)"
  using pruned_tasks_order_dependent by auto

text \<open>
  C2, at failing inputs. A single task without \<open>resources\<close> raises nothing and is
  scheduled; followed by a well-formed task it raises a bare KeyError, not
  InvalidTaskFormat.
\<close>

theorem missing_resources_not_rejected:
  "get_highest_profit_schedule [no_resources_task] = ([], Inr [''t1'']) \<and>
   get_highest_profit_schedule [no_resources_task, plain_task] =
     ([no_resources_task], Inl (KeyError ''resources''))"
  by code_simp

section \<open>Missing fields and the caller's list\<close>

lemma build_graph_prefix: "\<exists>k. fst (build_graph g ts) = take k ts"
proof (induction ts arbitrary: g rule: rev_induct)
  case Nil
  show ?case by (simp add: build_graph_Nil)
next
  case (snoc t ts)
  have here: "\<exists>k. ts = take k (ts @ [t])" by (rule exI[of _ "length ts"]) simp
  have below: "\<exists>k. fst (build_graph g' ts) = take k (ts @ [t])" for g'
  proof -
    from snoc[of g'] obtain k where "fst (build_graph g' ts) = take k ts" ..
    moreover have "take (min k (length ts)) (ts @ [t]) = take k ts"
      by (cases "k \<le> length ts") (simp_all add: min_def)
    ultimately have "fst (build_graph g' ts) = take (min k (length ts)) (ts @ [t])" by simp
    then show ?thesis ..
  qed
  show ?case
    using here below
    by (simp add: build_graph_snoc split: option.splits sum.splits)
qed







text \<open>
  C4, as stated, fails: after the call on the scenario the caller's list is not the list
  that was passed.
\<close>

theorem input_list_unchanged_counterexample:
  "fst (get_highest_profit_schedule scenario_tasks) \<noteq> scenario_tasks"
proof -
  have "fst (get_highest_profit_schedule scenario_tasks) = []"
    by (simp add: scenario_result)
  moreover have "scenario_tasks \<noteq> []" by (simp add: scenario_tasks_def)
  ultimately show ?thesis by simp
qed

text \<open>
  C4, amended. The call consumes the caller's list and touches no record: whatever the
  input, the list it leaves is a prefix of the input list, the records in it as they were;
  for a well-formed task list it leaves the empty list.
\<close>

theorem input_list_consumed:
  "(\<exists>k. fst (get_highest_profit_schedule tasks) = take k tasks) \<and>
   (well_formed tasks \<longrightarrow> fst (get_highest_profit_schedule tasks) = [])"
proof -
  have eq: "fst (get_highest_profit_schedule tasks) = fst (build_graph empty_graph tasks)"
    by (simp add: get_highest_profit_schedule_def from_tasks_to_graph_def
        split: prod.splits sum.splits)
  have "well_formed tasks \<longrightarrow> fst (build_graph empty_graph tasks) = []"
    using from_tasks_to_graph_built[of tasks] by (auto simp: from_tasks_to_graph_def)
  with build_graph_prefix[of empty_graph tasks] eq show ?thesis by simp
qed

theorem input_list_consumed_witness:
  "well_formed scenario_tasks \<and> fst (get_highest_profit_schedule scenario_tasks) = []"
  using input_list_consumed[of scenario_tasks] well_formed_scenario_tasks by blast

section \<open>Properties of the search\<close>

lemma greedily_find_independent_set_nonempty:
  "P \<noteq> [] \<Longrightarrow> greedily_find_independent_set g P \<noteq> []"
  by (cases P) simp_all

lemma branching_loop_sublist:
  "\<exists>bn. branching_loop g residual_wt total_wt target P = Inr bn \<and> mset bn \<subseteq># mset P"
proof (induction g residual_wt total_wt target P rule: branching_loop.induct)
  case (1 g residual_wt total_wt target P)
  let ?I = "greedily_find_independent_set g P"
  let ?m = "Min (residual_wt ` set ?I)"
  show ?case
  proof (cases "P = []")
    case True
    then show ?thesis by (simp add: branching_loop.simps)
  next
    case False
    then have ne: "?I \<noteq> []" by (rule greedily_find_independent_set_nonempty)
    show ?thesis
    proof (cases "total_wt + ?m > target")
      case True
      with False ne show ?thesis by (subst branching_loop.simps) simp
    next
      case False
      let ?P' = "filter (\<lambda>v. subtract_weight residual_wt ?m ?I v \<noteq> 0) P"
      from "1.IH"[OF \<open>P \<noteq> []\<close> ne False] obtain bn
        where bn: "branching_loop g (subtract_weight residual_wt ?m ?I) (total_wt + ?m) target ?P'
                     = Inr bn" "mset bn \<subseteq># mset ?P'"
        by blast
      have "mset ?P' \<subseteq># mset P" by simp
      with bn(2) have "mset bn \<subseteq># mset P" by (rule subset_mset.order_trans)
      with bn(1) False \<open>P \<noteq> []\<close> ne show ?thesis
        by (subst branching_loop.simps) simp
    qed
  qed
qed

lemma find_branching_nodes_sublist:
  assumes "set P \<subseteq> fst ` set node_weights"
  shows "\<exists>bn. find_branching_nodes g node_weights P target = Inr bn \<and> mset bn \<subseteq># mset P"
proof -
  from assms have "List.find (\<lambda>v. map_of node_weights v = None) P = None"
    by (auto simp: find_None_iff map_of_eq_None_iff)
  then show ?thesis
    using branching_loop_sublist by (simp add: find_branching_nodes_def)
qed

lemma mset_butlast_remove1:
  assumes "bn \<noteq> []" "mset bn \<subseteq># mset P"
  shows "mset (butlast bn) \<subseteq># mset (remove1 (last bn) P)" and "last bn \<in> set P"
proof -
  from assms(1) have bn: "bn = butlast bn @ [last bn]" by simp
  then have "mset bn = add_mset (last bn) (mset (butlast bn))"
    by (metis mset.simps(2) mset_append union_mset_add_mset_right add.right_neutral mset.simps(1))
  with assms(2) have sub: "add_mset (last bn) (mset (butlast bn)) \<subseteq># mset P" by simp
  then have "last bn \<in># mset P" by (meson insert_subset_eq_iff)
  then show "last bn \<in> set P" by simp
  from sub show "mset (butlast bn) \<subseteq># mset (remove1 (last bn) P)"
    by (simp add: insert_subset_eq_iff)
qed

lemma expand_returns:
  "set P \<subseteq> fst ` set node_weights \<Longrightarrow> \<exists>inc'. expand g node_weights inc C C_weight P = Inr inc'"
  "set P \<subseteq> fst ` set node_weights \<Longrightarrow> mset branching_nodes \<subseteq># mset P \<Longrightarrow>
     \<exists>inc'. expand_loop g node_weights inc C C_weight P branching_nodes = Inr inc'"
proof (induction g node_weights inc C C_weight P and g node_weights inc C C_weight P branching_nodes
       rule: expand_expand_loop.induct)
  case (1 g node_weights inc C C_weight P)
  from find_branching_nodes_sublist[OF "1.prems"] obtain bn
    where bn: "find_branching_nodes g node_weights P
                 (incumbent_weight (update_incumbent_if_improved inc C C_weight) - C_weight) = Inr bn"
      "mset bn \<subseteq># mset P"
    by blast
  from "1.IH"[OF bn(1) "1.prems" bn(2)] bn(1) show ?case
    by (subst expand.simps) simp
next
  case (2 g node_weights inc C C_weight P branching_nodes)
  show ?case
  proof (cases "branching_nodes = []")
    case True
    then show ?thesis by (subst expand_loop.simps) simp
  next
    case False
    let ?v = "last branching_nodes"
    let ?P' = "remove1 ?v P"
    let ?newP = "filter (\<lambda>x. \<not> has_edge g ?v x) ?P'"
    from mset_butlast_remove1[OF False "2.prems"(2)]
    have sub: "mset (butlast branching_nodes) \<subseteq># mset ?P'" and vin: "?v \<in> set P" .
    from vin "2.prems"(1) obtain w where w: "map_of node_weights ?v = Some w"
      by (metis map_of_eq_None_iff not_Some_eq subsetD)
    have P': "set ?P' \<subseteq> fst ` set node_weights"
      using "2.prems"(1) set_remove1_subset by fast
    then have newP: "set ?newP \<subseteq> fst ` set node_weights" by auto
    from vin have nvin: "\<not> ?v \<notin> set P" by simp
    from "2.IH"(1)[OF False nvin w newP] obtain inc1
      where inc1: "expand g node_weights inc (C @ [?v]) (C_weight + w) ?newP = Inr inc1" by blast
    from "2.IH"(2)[OF False nvin w inc1 P' sub] obtain inc2
      where "expand_loop g node_weights inc1 C C_weight ?P' (butlast branching_nodes) = Inr inc2"
      by blast
    with False vin w inc1 show ?thesis by (subst expand_loop.simps) simp
  qed
qed


lemma independent_snoc:
  "independent g (C @ [v]) = (independent g C \<and> (\<forall>c \<in> set C. \<not> has_edge g c v))"
  by (induction C) auto

lemma independent_pair:
  "independent g C \<Longrightarrow> u \<in> set C \<Longrightarrow> v \<in> set C \<Longrightarrow> u \<noteq> v \<Longrightarrow> \<not> has_edge g u v"
  by (induction C) (auto simp: has_edge_sym)

lemma call_ok_descend:
  assumes ok: "call_ok g M N (d, C, P)" and v: "v \<in> set P"
  shows "call_ok g M N (Suc d, C @ [v], filter (\<lambda>x. \<not> has_edge g v x) (remove1 v P))"
proof -
  let ?newP = "filter (\<lambda>x. \<not> has_edge g v x) (remove1 v P)"
  from ok have i: "independent g C" and a: "\<forall>c \<in> set C. \<forall>p \<in> set P. \<not> has_edge g c p"
    and l: "length C = d" and n: "d + length P \<le> N" and m: "mset C + mset P \<subseteq># M"
    by (simp_all add: call_ok_def)
  have sub: "set ?newP \<subseteq> set P" using set_remove1_subset[of v P] by auto
  have 1: "independent g (C @ [v])" using i a v by (simp add: independent_snoc)
  have 2: "\<forall>c \<in> set (C @ [v]). \<forall>p \<in> set ?newP. \<not> has_edge g c p"
    using a sub by auto
  have "length ?newP \<le> length (remove1 v P)" by (rule length_filter_le)
  also have "\<dots> < length P" using v length_pos_if_in_set[of v P] by (simp add: length_remove1)
  finally have 3: "Suc d + length ?newP \<le> N" using n by simp
  define R where "R = remove1 v P"
  define Q where "Q = filter (\<lambda>x. \<not> has_edge g v x) R"
  have fQ: "mset Q \<subseteq># mset R"
    unfolding Q_def by (simp only: mset_filter multiset_filter_subset)
  have fR: "add_mset v (mset R) = mset P"
    unfolding R_def using v by simp
  from fQ have "mset C + add_mset v (mset Q) \<subseteq># mset C + add_mset v (mset R)" by simp
  then have "mset C + add_mset v (mset Q) \<subseteq># mset C + mset P" by (simp only: fR)
  from this m have "mset C + add_mset v (mset Q) \<subseteq># M"
    by (rule subset_mset.order_trans)
  then have "mset (C @ [v]) + mset Q \<subseteq># M" by simp
  then have 4: "mset (C @ [v]) + mset ?newP \<subseteq># M" by (simp only: Q_def R_def)
  from 1 2 3 4 l show ?thesis by (simp add: call_ok_def)
qed

lemma call_ok_remove1:
  assumes ok: "call_ok g M N (d, C, P)"
  shows "call_ok g M N (d, C, remove1 v P)"
proof -
  from ok have i: "independent g C" and a: "\<forall>c \<in> set C. \<forall>p \<in> set P. \<not> has_edge g c p"
    and l: "length C = d" and n: "d + length P \<le> N" and m: "mset C + mset P \<subseteq># M"
    by (simp_all add: call_ok_def)
  have 2: "\<forall>c \<in> set C. \<forall>p \<in> set (remove1 v P). \<not> has_edge g c p"
    using a set_remove1_subset[of v P] by blast
  have "length (remove1 v P) \<le> length P" by (simp add: length_remove1)
  with n have 3: "d + length (remove1 v P) \<le> N" by simp
  have "mset (remove1 v P) \<subseteq># mset P" by simp
  then have "mset C + mset (remove1 v P) \<subseteq># mset C + mset P" by simp
  from this m have 4: "mset C + mset (remove1 v P) \<subseteq># M" by (rule subset_mset.order_trans)
  from i 2 3 4 l show ?thesis by (simp add: call_ok_def)
qed

lemma calls_ok:
  "call_ok g M N (depth, C, P) \<Longrightarrow>
     \<forall>x \<in> set (expand_calls g node_weights depth inc C C_weight P). call_ok g M N x"
  "call_ok g M N (depth, C, P) \<Longrightarrow>
     \<forall>x \<in> set (expand_loop_calls g node_weights depth inc C C_weight P branching_nodes).
        call_ok g M N x"
proof (induction g node_weights depth inc C C_weight P
         and g node_weights depth inc C C_weight P branching_nodes
       rule: expand_calls_expand_loop_calls.induct)
  case (1 g node_weights depth inc C C_weight P)
  show ?case
  proof (cases "find_branching_nodes g node_weights P
                  (incumbent_weight (update_incumbent_if_improved inc C C_weight) - C_weight)")
    case (Inl e)
    with "1.prems" show ?thesis by (subst expand_calls.simps) simp
  next
    case (Inr bn)
    from "1.IH"[OF Inr "1.prems"] "1.prems" Inr show ?thesis
      by (subst expand_calls.simps) simp
  qed
next
  case (2 g node_weights depth inc C C_weight P branching_nodes)
  let ?v = "last branching_nodes"
  let ?P' = "remove1 ?v P"
  let ?newP = "filter (\<lambda>x. \<not> has_edge g ?v x) ?P'"
  show ?case
  proof (cases "branching_nodes = [] \<or> ?v \<notin> set P \<or> map_of node_weights ?v = None")
    case True
    then show ?thesis by (subst expand_loop_calls.simps) auto
  next
    case False
    then obtain w where ne: "branching_nodes \<noteq> []" and vin: "\<not> ?v \<notin> set P"
      and w: "map_of node_weights ?v = Some w"
      by auto
    from vin have vin': "?v \<in> set P" by simp
    have down: "\<forall>x \<in> set (expand_calls g node_weights (Suc depth) inc (C @ [?v]) (C_weight + w) ?newP).
                   call_ok g M N x"
      using "2.IH"(1)[OF ne vin w call_ok_descend[OF "2.prems" vin']] .
    show ?thesis
    proof (cases "expand g node_weights inc (C @ [?v]) (C_weight + w) ?newP")
      case (Inl e)
      with ne vin' w down show ?thesis by (subst expand_loop_calls.simps) simp
    next
      case (Inr inc')
      from "2.IH"(2)[OF ne vin w Inr call_ok_remove1[OF "2.prems"]]
      have "\<forall>x \<in> set (expand_loop_calls g node_weights depth inc' C C_weight ?P'
                         (butlast branching_nodes)). call_ok g M N x" .
      with Inr ne vin' w down show ?thesis by (subst expand_loop_calls.simps) auto
    qed
  qed
qed

lemma update_incumbent_cases:
  "update_incumbent_if_improved inc C C_weight = inc \<or>
   incumbent_nodes (update_incumbent_if_improved inc C C_weight) = C"
  by (simp add: update_incumbent_if_improved_def)

lemma update_incumbent_weight:
  "incumbent_weight inc \<le> incumbent_weight (update_incumbent_if_improved inc C C_weight)"
  by (simp add: update_incumbent_if_improved_def)

lemma expand_result:
  "expand g node_weights inc C C_weight P = Inr inc' \<Longrightarrow>
     (inc' = inc \<or>
      (\<exists>d' P'. (d', incumbent_nodes inc', P') \<in> set (expand_calls g node_weights depth inc C C_weight P))) \<and>
     incumbent_weight inc \<le> incumbent_weight inc'"
  "expand_loop g node_weights inc C C_weight P branching_nodes = Inr inc' \<Longrightarrow>
     (inc' = inc \<or>
      (\<exists>d' P'. (d', incumbent_nodes inc', P') \<in>
          set (expand_loop_calls g node_weights depth inc C C_weight P branching_nodes))) \<and>
     incumbent_weight inc \<le> incumbent_weight inc'"
proof (induction g node_weights inc C C_weight P and g node_weights inc C C_weight P branching_nodes
       arbitrary: depth inc' and depth inc' rule: expand_expand_loop.induct)
  case (1 g node_weights inc C C_weight P)
  let ?inc1 = "update_incumbent_if_improved inc C C_weight"
  from "1.prems" obtain bn
    where bn: "find_branching_nodes g node_weights P (incumbent_weight ?inc1 - C_weight) = Inr bn"
      and loop: "expand_loop g node_weights ?inc1 C C_weight P bn = Inr inc'"
    by (subst (asm) expand.simps) (auto split: sum.splits)
  have calls: "expand_calls g node_weights depth inc C C_weight P =
      (depth, C, P) # expand_loop_calls g node_weights depth ?inc1 C C_weight P bn"
    using bn by (subst expand_calls.simps) simp
  from "1.IH"[OF bn loop, of depth]
  have ih: "inc' = ?inc1 \<or>
      (\<exists>d' P'. (d', incumbent_nodes inc', P') \<in>
          set (expand_loop_calls g node_weights depth ?inc1 C C_weight P bn))"
    and wt: "incumbent_weight ?inc1 \<le> incumbent_weight inc'"
    by simp_all
  from wt update_incumbent_weight[of inc C C_weight]
  have "incumbent_weight inc \<le> incumbent_weight inc'" by (rule order_trans[rotated])
  moreover have "inc' = inc \<or>
      (\<exists>d' P'. (d', incumbent_nodes inc', P') \<in> set (expand_calls g node_weights depth inc C C_weight P))"
    using ih
  proof
    assume eq: "inc' = ?inc1"
    from update_incumbent_cases[of inc C C_weight] show ?thesis
    proof
      assume "?inc1 = inc"
      with eq show ?thesis by simp
    next
      assume "incumbent_nodes ?inc1 = C"
      with eq have "(depth, incumbent_nodes inc', P) \<in> set (expand_calls g node_weights depth inc C C_weight P)"
        by (simp add: calls)
      then show ?thesis by blast
    qed
  next
    assume "\<exists>d' P'. (d', incumbent_nodes inc', P') \<in>
          set (expand_loop_calls g node_weights depth ?inc1 C C_weight P bn)"
    then show ?thesis by (auto simp: calls)
  qed
  ultimately show ?case by simp
next
  case (2 g node_weights inc C C_weight P branching_nodes)
  let ?v = "last branching_nodes"
  let ?P' = "remove1 ?v P"
  let ?newP = "filter (\<lambda>x. \<not> has_edge g ?v x) ?P'"
  show ?case
  proof (cases "branching_nodes = []")
    case True
    with "2.prems" show ?thesis by (subst (asm) expand_loop.simps) simp
  next
    case False
    from "2.prems" False obtain w inc1
      where vin: "?v \<in> set P" and w: "map_of node_weights ?v = Some w"
        and inc1: "expand g node_weights inc (C @ [?v]) (C_weight + w) ?newP = Inr inc1"
        and rest: "expand_loop g node_weights inc1 C C_weight ?P' (butlast branching_nodes) = Inr inc'"
      by (subst (asm) expand_loop.simps) (auto split: if_splits option.splits sum.splits)
    from vin have nvin: "\<not> ?v \<notin> set P" by simp
    have calls: "expand_loop_calls g node_weights depth inc C C_weight P branching_nodes =
        expand_calls g node_weights (Suc depth) inc (C @ [?v]) (C_weight + w) ?newP @
        expand_loop_calls g node_weights depth inc1 C C_weight ?P' (butlast branching_nodes)"
      using False vin w inc1 by (subst expand_loop_calls.simps) simp
    from "2.IH"(1)[OF False nvin w inc1, of "Suc depth"]
    have a: "inc1 = inc \<or>
        (\<exists>d' P'. (d', incumbent_nodes inc1, P') \<in>
           set (expand_calls g node_weights (Suc depth) inc (C @ [?v]) (C_weight + w) ?newP))"
      and aw: "incumbent_weight inc \<le> incumbent_weight inc1"
      by simp_all
    from "2.IH"(2)[OF False nvin w inc1 rest, of depth]
    have b: "inc' = inc1 \<or>
        (\<exists>d' P'. (d', incumbent_nodes inc', P') \<in>
           set (expand_loop_calls g node_weights depth inc1 C C_weight ?P' (butlast branching_nodes)))"
      and bw: "incumbent_weight inc1 \<le> incumbent_weight inc'"
      by simp_all
    from aw bw have "incumbent_weight inc \<le> incumbent_weight inc'" by (rule order_trans)
    moreover from a b have "inc' = inc \<or>
      (\<exists>d' P'. (d', incumbent_nodes inc', P') \<in>
          set (expand_loop_calls g node_weights depth inc C C_weight P branching_nodes))"
      unfolding calls by auto
    ultimately show ?thesis by simp
  qed
qed


lemma init_weights_fst: "init_weights ns = Inr nw \<Longrightarrow> map fst nw = map fst ns"
proof (induction ns arbitrary: nw)
  case Nil
  then show ?case by simp
next
  case (Cons x ns)
  obtain v a where x: "x = (v, a)" by (cases x)
  from Cons.prems x obtain w ws where "a = Some w" "init_weights ns = Inr ws" "nw = (v, w) # ws"
    by (auto split: option.splits sum.splits)
  with Cons.IH[of ws] x show ?case by simp
qed

lemma init_weights_total:
  "\<forall>x \<in> set ns. snd x \<noteq> None \<Longrightarrow> \<exists>nw. init_weights ns = Inr nw"
proof (induction ns)
  case Nil
  show ?case by simp
next
  case (Cons x ns)
  obtain v a where x: "x = (v, a)" by (cases x)
  with Cons.prems obtain w where "a = Some w" by auto
  moreover from Cons obtain ws where "init_weights ns = Inr ws" by auto
  ultimately show ?case using x by simp
qed

lemma mset_initial_pool: "mset (initial_pool g node_weights) \<subseteq># mset (map fst (nodes g))"
proof -
  have "mset (initial_pool g node_weights) \<subseteq>#
          mset (sort_key (\<lambda>v. - int (degree g v)) (map fst (nodes g)))"
    unfolding initial_pool_def by (simp only: mset_filter multiset_filter_subset)
  then show ?thesis by (simp only: mset_sort)
qed

lemma length_initial_pool: "length (initial_pool g node_weights) \<le> length (nodes g)"
  using size_mset_mono[OF mset_initial_pool[of g node_weights]] by simp

lemma root_call_ok:
  "call_ok g (mset (map fst (nodes g))) (length (nodes g)) (0, [], initial_pool g node_weights)"
  using mset_initial_pool[of g node_weights] length_initial_pool[of g node_weights]
  by (simp add: call_ok_def)

lemma search_calls_ok:
  "\<forall>c \<in> set (search_calls g node_weights).
     call_ok g (mset (map fst (nodes g))) (length (nodes g)) c"
  unfolding search_calls_def by (rule calls_ok(1)[OF root_call_ok])

lemma find_max_weight_clique_expand:
  assumes "init_weights (nodes g) = Inr node_weights"
  shows "find_max_weight_clique g node_weights =
           expand g node_weights \<lparr>incumbent_nodes = [], incumbent_weight = 0\<rparr> [] 0
             (initial_pool g node_weights)"
proof -
  from init_weights_fst[OF assms] have "fst ` set node_weights = fst ` set (nodes g)"
    by (metis set_map)
  then have "List.find (\<lambda>v. map_of node_weights v = None)
               (sort_key (\<lambda>v. - int (degree g v)) (map fst (nodes g))) = None"
    by (simp add: find_None_iff map_of_eq_None_iff)
  then show ?thesis unfolding find_max_weight_clique_def initial_pool_def by simp
qed

lemma search_result:
  assumes "init_weights (nodes g) = Inr node_weights"
  shows "\<exists>inc. solve g = Inr inc \<and> find_max_weight_clique g node_weights = Inr inc \<and>
           0 \<le> incumbent_weight inc \<and>
           independent g (incumbent_nodes inc) \<and>
           mset (incumbent_nodes inc) \<subseteq># mset (map fst (nodes g)) \<and>
           (inc = \<lparr>incumbent_nodes = [], incumbent_weight = 0\<rparr> \<or>
            (\<exists>d P. (d, incumbent_nodes inc, P) \<in> set (search_calls g node_weights)))"
proof -
  let ?inc0 = "\<lparr>incumbent_nodes = [], incumbent_weight = 0\<rparr>"
  let ?P0 = "initial_pool g node_weights"
  from init_weights_fst[OF assms] have keys: "fst ` set node_weights = fst ` set (nodes g)"
    by (metis set_map)
  have "set ?P0 \<subseteq> set (map fst (nodes g))"
    using set_mset_mono[OF mset_initial_pool[of g node_weights]] by simp
  with keys have "set ?P0 \<subseteq> fst ` set node_weights" by simp
  from expand_returns(1)[OF this] obtain inc
    where inc: "expand g node_weights ?inc0 [] 0 ?P0 = Inr inc" by blast
  from expand_result(1)[OF inc, of 0]
  have r: "inc = ?inc0 \<or> (\<exists>d P. (d, incumbent_nodes inc, P) \<in> set (search_calls g node_weights))"
    and w: "0 \<le> incumbent_weight inc"
    by (simp_all add: search_calls_def)
  have ok: "independent g (incumbent_nodes inc) \<and>
            mset (incumbent_nodes inc) \<subseteq># mset (map fst (nodes g))"
    using r
  proof
    assume "inc = ?inc0"
    then show ?thesis by simp
  next
    assume "\<exists>d P. (d, incumbent_nodes inc, P) \<in> set (search_calls g node_weights)"
    then obtain d P where "(d, incumbent_nodes inc, P) \<in> set (search_calls g node_weights)"
      by blast
    with search_calls_ok[of g node_weights]
    have "call_ok g (mset (map fst (nodes g))) (length (nodes g)) (d, incumbent_nodes inc, P)"
      by blast
    then have "independent g (incumbent_nodes inc)"
      and "mset (incumbent_nodes inc) + mset P \<subseteq># mset (map fst (nodes g))"
      by (simp_all add: call_ok_def)
    then show ?thesis using subset_mset.add_increasing2 mset_subset_eq_add_left subset_mset.order_trans
      by blast
  qed
  from inc find_max_weight_clique_expand[OF assms]
  have "find_max_weight_clique g node_weights = Inr inc" by simp
  moreover from this assms have "solve g = Inr inc" by (simp add: solve_def)
  ultimately show ?thesis using w ok r by blast
qed


lemma distinct_mset_subseteq:
  assumes "mset xs \<subseteq># mset ys" "distinct ys"
  shows "distinct xs"
proof -
  have "count (mset xs) a = (if a \<in> set xs then 1 else 0)" for a
  proof (cases "a \<in> set xs")
    case True
    then have "1 \<le> count (mset xs) a" by (simp add: Suc_le_eq)
    moreover from assms(1) have "count (mset xs) a \<le> count (mset ys) a"
      by (rule mset_subset_eq_count)
    moreover from assms(2) have "count (mset ys) a \<le> 1"
      by (simp add: distinct_count_atmost_1)
    ultimately have "count (mset xs) a = 1" by linarith
    with True show ?thesis by simp
  next
    case False
    then show ?thesis by (simp add: count_eq_zero_iff)
  qed
  then show ?thesis by (simp only: distinct_count_atmost_1) simp
qed

lemma built_init_weights:
  assumes wf: "well_formed tasks" and b: "built g [] tasks"
  shows "\<exists>nw. init_weights (nodes g) = Inr nw"
proof (rule init_weights_total, rule ballI)
  fix x assume x: "x \<in> set (nodes g)"
  obtain k a where ka: "x = (k, a)" by (cases x)
  with x have "has_node g k" by (force simp: has_node_def)
  with built_final(3)[OF wf b, of k] obtain t where t: "t \<in> set tasks" "name t = Some k" by blast
  from built_final(4)[OF wf b t] have "map_of (nodes g) k = Some (profit t)" .
  moreover from built_final(1)[OF wf b] x ka have "map_of (nodes g) k = Some a" by simp
  ultimately have "a = profit t" by simp
  with wf t ka show "snd x \<noteq> None" by (simp add: well_formed_def)
qed

lemma schedule_of_well_formed:
  assumes wf: "well_formed tasks"
  shows "\<exists>g inc. from_tasks_to_graph tasks = ([], Inr g) \<and> built g [] tasks \<and>
           solve g = Inr inc \<and>
           get_highest_profit_schedule tasks = ([], Inr (incumbent_nodes inc)) \<and>
           independent g (incumbent_nodes inc) \<and>
           mset (incumbent_nodes inc) \<subseteq># mset (map fst (nodes g))"
proof -
  from from_tasks_to_graph_built[OF wf] obtain g
    where g: "from_tasks_to_graph tasks = ([], Inr g)" and b: "built g [] tasks" by blast
  from built_init_weights[OF wf b] obtain nw where "init_weights (nodes g) = Inr nw" ..
  from search_result[OF this] obtain inc where inc: "solve g = Inr inc"
    "independent g (incumbent_nodes inc)"
    "mset (incumbent_nodes inc) \<subseteq># mset (map fst (nodes g))"
    by blast
  from g inc(1) have "get_highest_profit_schedule tasks = ([], Inr (incumbent_nodes inc))"
    by (simp add: get_highest_profit_schedule_def get_maximum_weighted_independient_set_def)
  with g b inc show ?thesis by blast
qed

text \<open>
  C3. In every activation of \<open>expand\<close> of a search, on any graph and any weights, the
  candidate \<open>C\<close> is independent: no two of its nodes are adjacent. For every well-formed
  task list a schedule is returned, it names tasks of the list, each once, and no two
  distinct tasks named in it share a resource.
\<close>

theorem candidates_independent:
  "(\<forall>c \<in> set (search_calls g node_weights). independent g (fst (snd c))) \<and>
   (well_formed tasks \<longrightarrow>
      (\<exists>schedule. get_highest_profit_schedule tasks = ([], Inr schedule) \<and>
         distinct schedule \<and>
         (\<forall>n \<in> set schedule. \<exists>t \<in> set tasks. name t = Some n) \<and>
         (\<forall>a \<in> set tasks. \<forall>b \<in> set tasks.
            a \<noteq> b \<longrightarrow> name a \<in> Some ` set schedule \<longrightarrow> name b \<in> Some ` set schedule \<longrightarrow>
            \<not> conflict a b)))"
proof
  show "\<forall>c \<in> set (search_calls g node_weights). independent g (fst (snd c))"
    using search_calls_ok[of g node_weights] by (auto simp: call_ok_def)
next
  show "well_formed tasks \<longrightarrow>
      (\<exists>schedule. get_highest_profit_schedule tasks = ([], Inr schedule) \<and>
         distinct schedule \<and>
         (\<forall>n \<in> set schedule. \<exists>t \<in> set tasks. name t = Some n) \<and>
         (\<forall>a \<in> set tasks. \<forall>b \<in> set tasks.
            a \<noteq> b \<longrightarrow> name a \<in> Some ` set schedule \<longrightarrow> name b \<in> Some ` set schedule \<longrightarrow>
            \<not> conflict a b))"
  proof
    assume wf: "well_formed tasks"
    from schedule_of_well_formed[OF wf] obtain g' and inc :: incumbent
      where b: "built g' [] tasks"
        and s: "get_highest_profit_schedule tasks = ([], Inr (incumbent_nodes inc))"
        and i: "independent g' (incumbent_nodes inc)"
        and m: "mset (incumbent_nodes inc) \<subseteq># mset (map fst (nodes g'))"
      by blast
    let ?s = "incumbent_nodes inc"
    from m built_final(1)[OF wf b] have d: "distinct ?s" by (rule distinct_mset_subseteq)
    have n: "\<forall>n \<in> set ?s. \<exists>t \<in> set tasks. name t = Some n"
    proof
      fix n assume "n \<in> set ?s"
      with set_mset_mono[OF m] have "has_node g' n" by (auto simp: has_node_def)
      with built_final(3)[OF wf b, of n] show "\<exists>t \<in> set tasks. name t = Some n" by simp
    qed
    have c: "\<forall>a \<in> set tasks. \<forall>b \<in> set tasks.
            a \<noteq> b \<longrightarrow> name a \<in> Some ` set ?s \<longrightarrow> name b \<in> Some ` set ?s \<longrightarrow> \<not> conflict a b"
    proof (intro ballI impI)
      fix a b' assume ab: "a \<in> set tasks" "b' \<in> set tasks" "a \<noteq> b'"
        and na: "name a \<in> Some ` set ?s" and nb: "name b' \<in> Some ` set ?s"
      from na nb obtain u v where uv: "name a = Some u" "u \<in> set ?s" "name b' = Some v" "v \<in> set ?s"
        by auto
      from wf have "inj_on name (set tasks)" by (simp add: well_formed_def distinct_map)
      with ab uv have "u \<noteq> v" by (auto simp: inj_on_def)
      from independent_pair[OF i uv(2) uv(4) this] have "\<not> has_edge g' u v" .
      with built_final(5)[OF wf b ab(1,2) uv(1,3)] ab(3) show "\<not> conflict a b'" by simp
    qed
    from s d n c show "\<exists>schedule. get_highest_profit_schedule tasks = ([], Inr schedule) \<and>
         distinct schedule \<and>
         (\<forall>n \<in> set schedule. \<exists>t \<in> set tasks. name t = Some n) \<and>
         (\<forall>a \<in> set tasks. \<forall>b \<in> set tasks.
            a \<noteq> b \<longrightarrow> name a \<in> Some ` set schedule \<longrightarrow> name b \<in> Some ` set schedule \<longrightarrow>
            \<not> conflict a b)"
      by blast
  qed
qed

theorem candidates_independent_witness:
  "well_formed scenario_tasks \<and>
   (2, [''t3'', ''t4''], []) \<in> set (search_calls scenario_conflict_graph scenario_weights) \<and>
   independent scenario_conflict_graph [''t3'', ''t4''] \<and>
   get_highest_profit_schedule scenario_tasks = ([], Inr [''t3'', ''t4'']) \<and>
   \<not> conflict (scenario_tasks ! 2) (scenario_tasks ! 3)"
proof -
  note inst = candidates_independent[of scenario_conflict_graph scenario_weights scenario_tasks]
  have call: "(2, [''t3'', ''t4''], []) \<in> set (search_calls scenario_conflict_graph scenario_weights)"
    by code_simp
  with inst have ind: "independent scenario_conflict_graph (fst (snd (2::nat, [''t3'', ''t4''], []::string list)))"
    by blast
  from inst well_formed_scenario_tasks scenario_result
  have free: "\<forall>a \<in> set scenario_tasks. \<forall>b \<in> set scenario_tasks.
         a \<noteq> b \<longrightarrow> name a \<in> Some ` set [''t3'', ''t4''] \<longrightarrow> name b \<in> Some ` set [''t3'', ''t4''] \<longrightarrow>
         \<not> conflict a b"
    by auto
  have "scenario_tasks ! 2 \<in> set scenario_tasks" "scenario_tasks ! 3 \<in> set scenario_tasks"
    "scenario_tasks ! 2 \<noteq> scenario_tasks ! 3"
    "name (scenario_tasks ! 2) \<in> Some ` set [''t3'', ''t4'']"
    "name (scenario_tasks ! 3) \<in> Some ` set [''t3'', ''t4'']"
    by (simp_all add: scenario_tasks_def)
  with free have "\<not> conflict (scenario_tasks ! 2) (scenario_tasks ! 3)" by blast
  with well_formed_scenario_tasks call ind scenario_result show ?thesis by simp
qed










end
